theory Spec2Isabelle
  imports Main "HOL-Library.Word"
begin

unbundle bit_operations_syntax

section \<open>Data model of ringmpsc.h\<close>

text \<open>
  \<open>uint64_t\<close> and (on the LP64 targets the header is written for) \<open>size_t\<close> are
  64-bit words: \<open>+\<close> and \<open>-\<close> wrap around modulo \<open>2 ^ 64\<close>, comparisons are unsigned.
  The macros \<open>RING_BITS\<close> and \<open>MAX_PRODUCERS\<close> are guarded by \<open>#ifndef\<close>, so they
  are parameters of the model (\<open>B\<close> and \<open>MP\<close>); the defaults are 16 and 16.
\<close>

type_synonym u64 = "64 word"

definition RING_CAPACITY :: "nat \<Rightarrow> u64" where
  "RING_CAPACITY B = push_bit B 1"

definition RING_MASK :: "nat \<Rightarrow> u64" where
  "RING_MASK B = RING_CAPACITY B - 1"

text \<open>
  \<open>struct ring\<close>. The atomics are plain fields: the model is sequential. The array
  \<open>buffer[RING_CAPACITY]\<close> is a list; every access of the header is at an index
  \<open>x & RING_MASK\<close>, which is in range when the list has \<open>RING_CAPACITY\<close> elements.
\<close>

record ring_t =
  tail :: u64
  cached_head :: u64
  head :: u64
  cached_tail :: u64
  active :: bool
  closed :: bool
  buffer :: "u64 list"

text \<open>
  \<open>struct channel\<close>; its flag \<open>closed\<close> is named \<open>closed_ch\<close> here, since the ring
  has a field of the same name.
\<close>

record channel_t =
  rings :: "ring_t list"
  producer_count :: u64
  closed_ch :: bool

text \<open>
  \<open>struct producer\<close>. The pointer \<open>ring\<close> always points into the array \<open>rings\<close> of
  a channel; it is modelled by the index of the ring it points to.
\<close>

record producer_t =
  ring :: nat
  id_p :: u64

text \<open>
  \<open>consume_handler_t\<close>: the callback receives a pointer to a slot and the context.
  The pointer is modelled by the slot index together with the word stored there; the
  context is threaded through the calls.
\<close>

type_synonym 'c consume_handler_t = "u64 \<Rightarrow> u64 \<Rightarrow> 'c \<Rightarrow> 'c"

section \<open>Ring API\<close>

definition ring_init :: "nat \<Rightarrow> ring_t" where
  "ring_init B =
     \<lparr>tail = 0, cached_head = 0, head = 0, cached_tail = 0,
      active = False, closed = False,
      buffer = replicate (unat (RING_CAPACITY B)) 0\<rparr>"

definition ring_len :: "ring_t \<Rightarrow> u64" where
  "ring_len r = tail r - head r"


definition ring_is_full :: "nat \<Rightarrow> ring_t \<Rightarrow> bool" where
  "ring_is_full B r = (ring_len r \<ge> RING_CAPACITY B)"

definition ring_is_closed :: "ring_t \<Rightarrow> bool" where
  "ring_is_closed r = closed r"

text \<open>
  \<open>ring_reserve\<close>: the result is the returned pointer (\<open>None\<close> for \<open>NULL\<close>,
  \<open>Some idx\<close> for \<open>&r->buffer[idx]\<close>) and the ring, whose \<open>cached_head\<close> the slow
  path refreshes.
\<close>

definition ring_reserve :: "nat \<Rightarrow> ring_t \<Rightarrow> u64 option \<times> ring_t" where
  "ring_reserve B r =
     (let t = tail r;
          space = RING_CAPACITY B - (t - cached_head r)
      in if space \<ge> 1 then (Some (t AND RING_MASK B), r)
         else
           let r' = r\<lparr>cached_head := head r\<rparr>;
               space' = RING_CAPACITY B - (t - cached_head r')
           in if space' < 1 then (None, r')
              else (Some (t AND RING_MASK B), r'))"

text \<open>
  \<open>ring_reserve_n\<close>: \<open>out\<close> models the cell \<open>out_contiguous\<close> points to
  (\<open>None\<close> when the pointer is \<open>NULL\<close>); the result is the returned pointer, the cell
  after the call and the ring. \<open>granted\<close> is the code that follows the space check:
  it computes the slot and the contiguous count.
\<close>

definition ring_reserve_n ::
  "nat \<Rightarrow> ring_t \<Rightarrow> u64 \<Rightarrow> u64 option \<Rightarrow> u64 option \<times> u64 option \<times> ring_t" where
  "ring_reserve_n B r n out =
     (if n = 0 \<or> n > RING_CAPACITY B then (None, out, r)
      else
        let t = tail r;
            granted = (\<lambda>r'.
              let idx = t AND RING_MASK B;
                  contiguous = RING_CAPACITY B - idx;
                  contiguous' = (if contiguous > n then n else contiguous)
              in (Some idx, map_option (\<lambda>_. contiguous') out, r'));
            space = RING_CAPACITY B - (t - cached_head r)
        in if space < n then
             let r' = r\<lparr>cached_head := head r\<rparr>;
                 space' = RING_CAPACITY B - (t - cached_head r')
             in if space' < n then (None, out, r') else granted r'
           else granted r)"

definition ring_commit :: "ring_t \<Rightarrow> u64 \<Rightarrow> ring_t" where
  "ring_commit r n = r\<lparr>tail := tail r + n\<rparr>"

text \<open>
  The loop \<open>while (pos != tail)\<close> of \<open>ring_consume_batch\<close>, on the variables
  \<open>pos\<close>, \<open>count\<close> and the context. \<open>pos++\<close> wraps around, and reaches \<open>tail\<close>
  after \<open>tail - pos\<close> (modulo \<open>2 ^ 64\<close>) rounds.
\<close>

function consume_batch_loop ::
  "nat \<Rightarrow> u64 list \<Rightarrow> 'c consume_handler_t \<Rightarrow> u64 \<Rightarrow> u64 \<Rightarrow> u64 \<Rightarrow> 'c \<Rightarrow> u64 \<times> 'c" where
  "consume_batch_loop B buf handler t pos count ctx =
     (if pos \<noteq> t then
        let idx = pos AND RING_MASK B
        in consume_batch_loop B buf handler t (pos + 1) (count + 1)
             (handler idx (buf ! unat idx) ctx)
      else (count, ctx))"
  by pat_completeness auto
termination
proof (relation "measure (\<lambda>(B, buf, handler, t, pos, count, ctx). unat (t - pos))")
  show "wf (measure (\<lambda>(B, buf, handler, t, pos, count, ctx). unat (t - pos)))"
    by simp
next
  fix B :: nat and buf :: "u64 list" and handler :: "'c consume_handler_t"
    and t pos count :: u64 and ctx :: 'c and idx :: u64
  assume ne: "pos \<noteq> t"
  have nz: "t - pos \<noteq> 0" using ne by simp
  have eq: "t - (pos + 1) = (t - pos) - 1" by simp
  have "unat ((t - pos) - 1) < unat (t - pos)"
    using nz by (simp add: unat_minus_one unat_gt_0)
  then have "unat (t - (pos + 1)) < unat (t - pos)"
    by (simp only: eq)
  then show
    "((B, buf, handler, t, pos + 1, count + 1, handler idx (buf ! unat idx) ctx),
      (B, buf, handler, t, pos, count, ctx))
     \<in> measure (\<lambda>(B, buf, handler, t, pos, count, ctx). unat (t - pos))"
    by simp
qed

declare consume_batch_loop.simps [simp del]

text \<open>
  \<open>ring_consume_batch\<close>: the result is the returned count, the ring and the context
  after the handler calls.
\<close>

definition ring_consume_batch ::
  "nat \<Rightarrow> ring_t \<Rightarrow> 'c consume_handler_t \<Rightarrow> 'c \<Rightarrow> u64 \<times> ring_t \<times> 'c" where
  "ring_consume_batch B r handler ctx =
     (let h = head r;
          t = tail r;
          avail = t - h
      in if avail = 0 then (0, r, ctx)
         else
           let (count, ctx') = consume_batch_loop B (buffer r) handler t h 0 ctx
           in (count, r\<lparr>head := t\<rparr>, ctx'))"

text \<open>
  The loop \<open>while (count < to_consume)\<close> of \<open>ring_consume_up_to\<close>.
\<close>

function consume_up_to_loop ::
  "nat \<Rightarrow> u64 list \<Rightarrow> 'c consume_handler_t \<Rightarrow> u64 \<Rightarrow> u64 \<Rightarrow> u64 \<Rightarrow> 'c \<Rightarrow> u64 \<times> 'c" where
  "consume_up_to_loop B buf handler to_consume pos count ctx =
     (if count < to_consume then
        let idx = pos AND RING_MASK B
        in consume_up_to_loop B buf handler to_consume (pos + 1) (count + 1)
             (handler idx (buf ! unat idx) ctx)
      else (count, ctx))"
  by pat_completeness auto
termination
proof (relation
    "measure (\<lambda>(B, buf, handler, to_consume, pos, count, ctx). unat to_consume - unat count)")
  show "wf (measure (\<lambda>(B, buf, handler, to_consume, pos, count, ctx).
      unat to_consume - unat count))"
    by simp
next
  fix B :: nat and buf :: "u64 list" and handler :: "'c consume_handler_t"
    and to_consume pos count :: u64 and ctx :: 'c and idx :: u64
  assume lt: "count < to_consume"
  then have less: "unat count < unat to_consume"
    by (simp add: word_less_nat_alt)
  moreover have "unat to_consume < 2 ^ 64"
    using unsigned_less [of to_consume] by simp
  with less have "unat (count + 1) = unat count + 1"
    by (simp add: unat_word_ariths)
  ultimately have "unat to_consume - unat (count + 1) < unat to_consume - unat count"
    by simp
  then show
    "((B, buf, handler, to_consume, pos + 1, count + 1, handler idx (buf ! unat idx) ctx),
      (B, buf, handler, to_consume, pos, count, ctx))
     \<in> measure (\<lambda>(B, buf, handler, to_consume, pos, count, ctx).
          unat to_consume - unat count)"
    by simp
qed

declare consume_up_to_loop.simps [simp del]

definition ring_consume_up_to ::
  "nat \<Rightarrow> ring_t \<Rightarrow> u64 \<Rightarrow> 'c consume_handler_t \<Rightarrow> 'c \<Rightarrow> u64 \<times> ring_t \<times> 'c" where
  "ring_consume_up_to B r max_items handler ctx =
     (if max_items = 0 then (0, r, ctx)
      else
        let h = head r;
            t = tail r;
            avail = t - h
        in if avail = 0 then (0, r, ctx)
           else
             let to_consume = (if avail < max_items then avail else max_items);
                 (count, ctx') = consume_up_to_loop B (buffer r) handler to_consume h 0 ctx
             in (count, r\<lparr>head := h + count\<rparr>, ctx'))"

definition ring_close :: "ring_t \<Rightarrow> ring_t" where
  "ring_close r = r\<lparr>closed := True\<rparr>"

section \<open>Channel API\<close>

text \<open>
  \<open>channel_init\<close> zeroes the channel and initialises each of its \<open>MAX_PRODUCERS\<close>
  rings.
\<close>

definition channel_init :: "u64 \<Rightarrow> nat \<Rightarrow> channel_t" where
  "channel_init MP B =
     \<lparr>rings = replicate (unat MP) (ring_init B), producer_count = 0, closed_ch = False\<rparr>"

text \<open>
  \<open>channel_register\<close>: the result is the returned code (0, -1 for a closed channel,
  -2 for too many producers), the handle \<open>*out\<close> after the call and the channel.
  \<open>atomic_fetch_add\<close> returns the value before the addition.
\<close>

definition channel_register ::
  "u64 \<Rightarrow> channel_t \<Rightarrow> producer_t \<Rightarrow> int \<times> producer_t \<times> channel_t" where
  "channel_register MP ch out =
     (if closed_ch ch then (-1, out, ch)
      else
        let id = producer_count ch;
            ch1 = ch\<lparr>producer_count := producer_count ch + 1\<rparr>
        in if id \<ge> MP then (-2, out, ch1\<lparr>producer_count := producer_count ch1 - 1\<rparr>)
           else
             (0, \<lparr>ring = unat id, id_p = id\<rparr>,
              ch1\<lparr>rings := (rings ch1)[unat id := (rings ch1 ! unat id)\<lparr>active := True\<rparr>]\<rparr>))"

text \<open>
  The loop \<open>for (i = 0; i < count; i++) ring_close(&ch->rings[i])\<close> of
  \<open>channel_close\<close>.
\<close>

function channel_close_loop :: "channel_t \<Rightarrow> u64 \<Rightarrow> u64 \<Rightarrow> channel_t" where
  "channel_close_loop ch count i =
     (if i < count then
        channel_close_loop
          (ch\<lparr>rings := (rings ch)[unat i := ring_close (rings ch ! unat i)]\<rparr>) count (i + 1)
      else ch)"
  by pat_completeness auto
termination
proof (relation "measure (\<lambda>(ch, count, i). unat count - unat i)")
  show "wf (measure (\<lambda>(ch, count, i). unat count - unat i))"
    by simp
next
  fix ch :: channel_t and count i :: u64
  assume lt: "i < count"
  then have less: "unat i < unat count"
    by (simp add: word_less_nat_alt)
  moreover have "unat count < 2 ^ 64"
    using unsigned_less [of count] by simp
  with less have "unat (i + 1) = unat i + 1"
    by (simp add: unat_word_ariths)
  ultimately have "unat count - unat (i + 1) < unat count - unat i"
    by simp
  then show
    "((ch\<lparr>rings := (rings ch)[unat i := ring_close (rings ch ! unat i)]\<rparr>, count, i + 1),
      (ch, count, i))
     \<in> measure (\<lambda>(ch, count, i). unat count - unat i)"
    by simp
qed

declare channel_close_loop.simps [simp del]

definition channel_close :: "channel_t \<Rightarrow> channel_t" where
  "channel_close ch =
     (let ch1 = ch\<lparr>closed_ch := True\<rparr>;
          count = producer_count ch1
      in channel_close_loop ch1 count 0)"

definition channel_is_closed :: "channel_t \<Rightarrow> bool" where
  "channel_is_closed ch = closed_ch ch"

definition channel_producer_count :: "channel_t \<Rightarrow> u64" where
  "channel_producer_count ch = producer_count ch"

section \<open>Producer convenience functions\<close>

text \<open>
  \<open>producer_send\<close> works on the ring its handle points to and on nothing else; the
  model takes that ring. The result is the returned flag and the ring.
\<close>

definition producer_send :: "nat \<Rightarrow> ring_t \<Rightarrow> u64 \<Rightarrow> bool \<times> ring_t" where
  "producer_send B r v =
     (case ring_reserve B r of
        (None, r') \<Rightarrow> (False, r')
      | (Some slot, r') \<Rightarrow>
          (True, ring_commit (r'\<lparr>buffer := (buffer r')[unat slot := v]\<rparr>) 1))"

section \<open>Scenarios\<close>

text \<open>
  A ring of capacity 8 that is full (\<open>head = 8\<close>, \<open>tail = 16\<close>) while the producer's
  \<open>cached_head\<close> is still 0.
\<close>

definition full_ring_stale_cache :: ring_t where
  "full_ring_stale_cache = (ring_init 3)\<lparr>tail := 16, head := 8\<rparr>"

text \<open>
  The boundary scenario "wrap under reserve_n" on a ring of capacity 8:
  \<open>ring_reserve_n(r, 5, &c)\<close>, \<open>ring_commit(r, 2)\<close>, \<open>ring_reserve_n(r, 5, &c)\<close>.
  The result is the pointer and the value of \<open>c\<close> after the first and after the second
  reserve.
\<close>

definition wrap_under_reserve_n ::
  "ring_t \<Rightarrow> (u64 option \<times> u64 option) \<times> (u64 option \<times> u64 option)" where
  "wrap_under_reserve_n r =
     (let (p1, c1, r1) = ring_reserve_n 3 r 5 (Some 0);
          r2 = ring_commit r1 2;
          (p2, c2, r3) = ring_reserve_n 3 r2 5 c1
      in ((p1, c1), (p2, c2)))"

text \<open>
  A channel for 4 producers that is closed and has handed out all its rings.
\<close>

definition closed_full_channel :: channel_t where
  "closed_full_channel = (channel_init 4 3)\<lparr>producer_count := 4, closed_ch := True\<rparr>"

text \<open>
  A fresh channel for 4 producers (rings of capacity 8) after one \<open>channel_register\<close>,
  and the same channel after \<open>channel_close\<close>.
\<close>

definition one_producer_channel :: channel_t where
  "one_producer_channel =
     snd (snd (channel_register 4 (channel_init 4 3) \<lparr>ring = 0, id_p = 0\<rparr>))"

definition one_producer_closed :: channel_t where
  "one_producer_closed = channel_close one_producer_channel"

text \<open>
  A handler that records the words it is handed, in the order of the calls: its
  context is the list of the words seen so far.
\<close>

definition record_handler :: "u64 list consume_handler_t" where
  "record_handler idx item seen = seen @ [item]"

text \<open>
  A ring of capacity 8 whose four pending items (indices 6 to 9) straddle the end of
  the buffer: slots 6, 7, 0 and 1.
\<close>

definition wrapped_ring :: ring_t where
  "wrapped_ring =
     \<lparr>tail = 10, cached_head = 2, head = 6, cached_tail = 0, active = True, closed = False,
      buffer = [10, 11, 12, 13, 14, 15, 16, 17]\<rparr>"

text \<open>
  A closed ring of capacity 8 whose \<open>tail\<close> has wrapped around and whose \<open>head\<close> has
  not: \<open>head = cached_head = 2 ^ 64 - 2\<close> and \<open>tail = 1\<close>, with three pending items.
\<close>

definition wrapped_closed_ring :: ring_t where
  "wrapped_closed_ring =
     (ring_init 3)\<lparr>tail := 1, cached_head := 18446744073709551614,
       head := 18446744073709551614, closed := True\<rparr>"

section \<open>A producer and a consumer on one ring\<close>







section \<open>Sequences of ring operations\<close>

text \<open>
  The operations that change a ring. \<open>ring_len\<close>, \<open>ring_is_empty\<close>, \<open>ring_is_full\<close>
  and \<open>ring_is_closed\<close> only read it.
\<close>

datatype ring_op =
  OpReserve | OpReserveN u64 | OpCommit u64 | OpConsumeBatch | OpConsumeUpTo u64 | OpClose

text \<open>
  One operation, under the reserve/commit protocol. Beside the ring and the handler's
  context the state holds the grant \<open>g\<close>: the number of slots the producer may
  commit, which is the largest count a successful reserve has returned since the last
  commit. A successful \<open>ring_reserve\<close> returns 1 slot, a successful \<open>ring_reserve_n\<close>
  the contiguous count it stores in \<open>*out_contiguous\<close>; a failed reserve grants
  nothing new, and \<open>ring_commit(n)\<close> uses the grant up. The step is \<open>None\<close> when a
  \<open>ring_commit(n)\<close> is not covered by the grant, that is when it is not paired with a
  successful reserve whose count is at least \<open>n\<close>.
\<close>

fun ring_step ::
  "nat \<Rightarrow> 'c consume_handler_t \<Rightarrow> ring_t \<times> u64 \<times> 'c \<Rightarrow> ring_op \<Rightarrow> (ring_t \<times> u64 \<times> 'c) option" where
  "ring_step B h (r, g, ctx) OpReserve =
     (case ring_reserve B r of
        (None, r') \<Rightarrow> Some (r', g, ctx)
      | (Some slot, r') \<Rightarrow> Some (r', max g 1, ctx))"
| "ring_step B h (r, g, ctx) (OpReserveN n) =
     (case ring_reserve_n B r n (Some 0) of
        (None, out, r') \<Rightarrow> Some (r', g, ctx)
      | (Some slot, None, r') \<Rightarrow> None
      | (Some slot, Some contiguous, r') \<Rightarrow> Some (r', max g contiguous, ctx))"
| "ring_step B h (r, g, ctx) (OpCommit n) =
     (if n \<le> g then Some (ring_commit r n, 0, ctx) else None)"
| "ring_step B h (r, g, ctx) OpConsumeBatch =
     (case ring_consume_batch B r h ctx of (k, r', ctx') \<Rightarrow> Some (r', g, ctx'))"
| "ring_step B h (r, g, ctx) (OpConsumeUpTo m) =
     (case ring_consume_up_to B r m h ctx of (k, r', ctx') \<Rightarrow> Some (r', g, ctx'))"
| "ring_step B h (r, g, ctx) OpClose = Some (ring_close r, g, ctx)"

text \<open>
  The states a sequence of operations goes through, the first one included; \<open>None\<close>
  when the sequence breaks the protocol.
\<close>

fun ring_trace ::
  "nat \<Rightarrow> 'c consume_handler_t \<Rightarrow> ring_t \<times> u64 \<times> 'c \<Rightarrow> ring_op list
     \<Rightarrow> (ring_t \<times> u64 \<times> 'c) list option" where
  "ring_trace B h s [] = Some [s]"
| "ring_trace B h s (op # ops) =
     (case ring_step B h s op of
        None \<Rightarrow> None
      | Some s' \<Rightarrow> map_option ((#) s) (ring_trace B h s' ops))"

text \<open>The state a sequence of operations ends in.\<close>

fun ring_run ::
  "nat \<Rightarrow> 'c consume_handler_t \<Rightarrow> ring_t \<times> u64 \<times> 'c \<Rightarrow> ring_op list
     \<Rightarrow> (ring_t \<times> u64 \<times> 'c) option" where
  "ring_run B h s [] = Some s"
| "ring_run B h s (op # ops) =
     (case ring_step B h s op of None \<Rightarrow> None | Some s' \<Rightarrow> ring_run B h s' ops)"

text \<open>The number of slots a sequence of operations commits.\<close>

fun committed :: "ring_op list \<Rightarrow> nat" where
  "committed [] = 0"
| "committed (OpCommit n # ops) = unat n + committed ops"
| "committed (op # ops) = committed ops"

text \<open>
  The invariant of these sequences: \<open>H\<close>, \<open>T\<close> and \<open>C\<close> are the unbounded numbers
  that \<open>head\<close>, \<open>tail\<close> and \<open>cached_head\<close> stand for, and the grant fits into the
  space the producer knows to be free.
\<close>

definition ring_ghost :: "nat \<Rightarrow> nat \<Rightarrow> nat \<Rightarrow> nat \<Rightarrow> ring_t \<times> u64 \<times> 'c \<Rightarrow> bool" where
  "ring_ghost B H T C s =
     (case s of (r, g, ctx) \<Rightarrow>
        head r = of_nat H \<and> tail r = of_nat T \<and> cached_head r = of_nat C
        \<and> C \<le> H \<and> H \<le> T \<and> T + unat g \<le> C + 2 ^ B)"

text \<open>The handler of the benchmark (\<open>bench.c\<close>), which ignores the item.\<close>

definition noop_handler :: "unit consume_handler_t" where
  "noop_handler idx item ctx = ctx"

text \<open>
  One round fills the empty ring with one \<open>ring_reserve_n\<close> of the whole capacity and
  one commit, and empties it with one \<open>ring_consume_batch\<close>: \<open>head\<close> and \<open>tail\<close>
  advance by the capacity. After \<open>2 ^ (64 - B) - 1\<close> rounds both are
  \<open>2 ^ 64 - capacity\<close>, and one more reserve and commit of the whole capacity take
  \<open>tail\<close> to \<open>2 ^ 64\<close>, which a 64-bit index stores as 0.
\<close>

definition wrap_round :: "nat \<Rightarrow> ring_op list" where
  "wrap_round B = [OpReserveN (RING_CAPACITY B), OpCommit (RING_CAPACITY B), OpConsumeBatch]"

definition wrap_ops :: "nat \<Rightarrow> ring_op list" where
  "wrap_ops B =
     concat (replicate (2 ^ (64 - B) - 1) (wrap_round B))
     @ [OpReserveN (RING_CAPACITY B), OpCommit (RING_CAPACITY B)]"

text \<open>A short sequence that follows the protocol, on a ring of capacity 8.\<close>

definition protocol_ops :: "ring_op list" where
  "protocol_ops =
     [OpReserveN 5, OpCommit 5, OpConsumeUpTo 2, OpReserve, OpCommit 1, OpConsumeBatch, OpClose]"

section \<open>Auxiliary facts\<close>

subsection \<open>Counters\<close>

text \<open>
  A counter below another 64-bit value is incremented without wrap-around.
\<close>

lemma unat_succ_less:
  fixes i c :: u64
  assumes "i < c"
  shows "unat (i + 1) = unat i + 1"
proof -
  have "unat i < unat c"
    using assms by (simp add: word_less_nat_alt)
  moreover have "unat c < 2 ^ 64"
    using unsigned_less [of c] by simp
  ultimately have "unat i + 1 < 2 ^ 64"
    by simp
  then show ?thesis
    by (simp add: unat_word_ariths)
qed

subsection \<open>Capacity and mask\<close>

lemma cap_unat:
  assumes "B < 64"
  shows "unat (RING_CAPACITY B) = 2 ^ B"
proof -
  have "unat (RING_CAPACITY B) = take_bit 64 (push_bit B (unat (1 :: u64)))"
    by (simp only: RING_CAPACITY_def unsigned_push_bit_eq len_num1 len_bit0 mult_numeral_left_semiring_numeral mult_1_right numeral_times_numeral)
      simp
  also have "\<dots> = take_bit 64 ((2::nat) ^ B)"
    by simp
  also have "\<dots> = 2 ^ B"
  proof (rule take_bit_nat_eq_self)
    show "(2::nat) ^ B < 2 ^ 64"
      using assms by (intro power_strict_increasing) simp_all
  qed
  finally show ?thesis .
qed

lemma mask_eq: "RING_MASK B = mask B"
  by (simp add: RING_MASK_def RING_CAPACITY_def mask_eq_decr_exp)

lemma unat_and_mask: "unat (w AND RING_MASK B) = unat w mod 2 ^ B"
  for w :: u64
proof -
  have "w AND RING_MASK B = take_bit B w"
    by (simp add: mask_eq take_bit_eq_mask)
  then show ?thesis
    by (simp only: unsigned_take_bit_eq take_bit_nat_def)
qed

lemma slot_in_range: "B < 64 \<Longrightarrow> unat (w AND RING_MASK B) < unat (RING_CAPACITY B)"
  by (simp add: unat_and_mask cap_unat)

subsection \<open>Free space\<close>

text \<open>
  The differences \<open>tail - cached_head\<close> and \<open>tail - head\<close> are taken modulo
  \<open>2 ^ 64\<close>; the facts below hold whenever \<open>head\<close> lies between \<open>cached_head\<close>
  and \<open>tail\<close> in that cyclic order, also after the indices have wrapped around.
\<close>

lemma space_unat:
  fixes d :: u64
  assumes "unat d \<le> unat (RING_CAPACITY B)"
  shows "unat (RING_CAPACITY B - d) = unat (RING_CAPACITY B) - unat d"
  using assms by (simp add: unat_sub word_le_nat_alt)

lemma diff_diff_unat:
  fixes t h c :: u64
  assumes "unat (h - c) \<le> unat (t - c)"
  shows "unat (t - h) = unat (t - c) - unat (h - c)"
proof -
  have "t - h = (t - c) - (h - c)" by simp
  moreover have "h - c \<le> t - c" using assms by (simp add: word_le_nat_alt)
  ultimately show ?thesis by (simp only: unat_sub)
qed

lemma ring_reserve_window:
  fixes r :: ring_t
  assumes a: "unat (head r - cached_head r) \<le> unat (tail r - cached_head r)"
    and b: "unat (tail r - cached_head r) \<le> unat (RING_CAPACITY B)"
  shows "ring_reserve B r =
     (if unat (tail r - head r) < unat (RING_CAPACITY B)
      then (Some (tail r AND RING_MASK B),
            if unat (tail r - cached_head r) < unat (RING_CAPACITY B) then r
            else r\<lparr>cached_head := head r\<rparr>)
      else (None, r\<lparr>cached_head := head r\<rparr>))"
proof -
  have d: "unat (tail r - head r) = unat (tail r - cached_head r) - unat (head r - cached_head r)"
    using a by (rule diff_diff_unat)
  have s1: "unat (RING_CAPACITY B - (tail r - cached_head r))
      = unat (RING_CAPACITY B) - unat (tail r - cached_head r)"
    using b by (rule space_unat)
  have "unat (tail r - head r) \<le> unat (RING_CAPACITY B)"
    using d b by simp
  then have s2: "unat (RING_CAPACITY B - (tail r - head r))
      = unat (RING_CAPACITY B) - unat (tail r - head r)"
    by (rule space_unat)
  show ?thesis
    using a b d
    by (auto simp add: ring_reserve_def Let_def word_le_nat_alt word_less_nat_alt s1 s2)
qed

lemma ring_reserve_n_window:
  fixes r :: ring_t
  assumes a: "unat (head r - cached_head r) \<le> unat (tail r - cached_head r)"
    and b: "unat (tail r - cached_head r) \<le> unat (RING_CAPACITY B)"
    and n: "0 < unat n" "unat n \<le> unat (RING_CAPACITY B)"
  shows "ring_reserve_n B r n out =
     (if unat (RING_CAPACITY B) - unat (tail r - head r) < unat n
      then (None, out, r\<lparr>cached_head := head r\<rparr>)
      else (Some (tail r AND RING_MASK B),
            map_option (\<lambda>_. if RING_CAPACITY B - (tail r AND RING_MASK B) > n then n
                              else RING_CAPACITY B - (tail r AND RING_MASK B)) out,
            if unat (RING_CAPACITY B) - unat (tail r - cached_head r) < unat n
            then r\<lparr>cached_head := head r\<rparr> else r))"
proof -
  have d: "unat (tail r - head r) = unat (tail r - cached_head r) - unat (head r - cached_head r)"
    using a by (rule diff_diff_unat)
  have s1: "unat (RING_CAPACITY B - (tail r - cached_head r))
      = unat (RING_CAPACITY B) - unat (tail r - cached_head r)"
    using b by (rule space_unat)
  have "unat (tail r - head r) \<le> unat (RING_CAPACITY B)"
    using d b by simp
  then have s2: "unat (RING_CAPACITY B - (tail r - head r))
      = unat (RING_CAPACITY B) - unat (tail r - head r)"
    by (rule space_unat)
  have n0: "n \<noteq> 0" using n(1) by auto
  show ?thesis
    using a b d n n0
    by (auto simp add: ring_reserve_n_def Let_def word_le_nat_alt word_less_nat_alt s1 s2)
qed

lemma contiguous_unat:
  fixes t :: u64
  assumes "B < 64"
  shows "unat (RING_CAPACITY B - (t AND RING_MASK B)) = 2 ^ B - unat t mod 2 ^ B"
proof -
  have "unat (t AND RING_MASK B) \<le> unat (RING_CAPACITY B)"
    using slot_in_range [OF assms, of t] by simp
  then show ?thesis
    by (simp add: space_unat unat_and_mask cap_unat assms)
qed

subsection \<open>Indices that have not wrapped\<close>

lemma window_of_plain:
  fixes t h c :: u64
  assumes "unat c \<le> unat h" "unat h \<le> unat t"
  shows "unat (h - c) = unat h - unat c" "unat (t - c) = unat t - unat c"
    "unat (t - h) = unat t - unat h"
  using assms by (simp_all add: unat_sub word_le_nat_alt)

subsection \<open>The close loop\<close>

lemma channel_close_loop_fields:
  "producer_count (channel_close_loop ch count i) = producer_count ch
   \<and> closed_ch (channel_close_loop ch count i) = closed_ch ch
   \<and> length (rings (channel_close_loop ch count i)) = length (rings ch)"
proof (induction ch count i rule: channel_close_loop.induct)
  case (1 ch count i)
  show ?case
  proof (cases "i < count")
    case True
    with "1.IH" show ?thesis
      by (subst (1 2 3) channel_close_loop.simps) simp
  next
    case False
    then show ?thesis
      by (subst (1 2 3) channel_close_loop.simps) simp
  qed
qed

lemma channel_close_loop_nth:
  "j < length (rings ch) \<Longrightarrow>
   rings (channel_close_loop ch count i) ! j =
     (if unat i \<le> j \<and> j < unat count then ring_close (rings ch ! j) else rings ch ! j)"
proof (induction ch count i rule: channel_close_loop.induct)
  case (1 ch count i)
  show ?case
  proof (cases "i < count")
    case True
    let ?ch' = "ch\<lparr>rings := (rings ch)[unat i := ring_close (rings ch ! unat i)]\<rparr>"
    have step: "channel_close_loop ch count i = channel_close_loop ?ch' count (i + 1)"
      using True by (subst channel_close_loop.simps) simp
    have len: "j < length (rings ?ch')"
      using "1.prems" by simp
    have suc: "unat (i + 1) = unat i + 1"
      using True by (rule unat_succ_less)
    have lt: "unat i < unat count"
      using True by (simp add: word_less_nat_alt)
    show ?thesis
      unfolding step "1.IH" [OF True len] suc
      using "1.prems" lt by (cases "j = unat i") (auto simp add: nth_list_update)
  next
    case False
    then have "\<not> unat i < unat count"
      by (simp add: word_less_nat_alt)
    with False show ?thesis
      by (subst channel_close_loop.simps) auto
  qed
qed

subsection \<open>The producer operations never read the closed flag\<close>

lemma ring_reserve_closed:
  "ring_reserve B (r\<lparr>closed := c\<rparr>)
     = (fst (ring_reserve B r), (snd (ring_reserve B r))\<lparr>closed := c\<rparr>)"
  by (simp add: ring_reserve_def Let_def)

lemma ring_reserve_n_closed:
  "ring_reserve_n B (r\<lparr>closed := c\<rparr>) n out
     = (fst (ring_reserve_n B r n out), fst (snd (ring_reserve_n B r n out)),
        (snd (snd (ring_reserve_n B r n out)))\<lparr>closed := c\<rparr>)"
  by (simp add: ring_reserve_n_def Let_def)

lemma producer_send_closed:
  "producer_send B (r\<lparr>closed := c\<rparr>) v
     = (fst (producer_send B r v), (snd (producer_send B r v))\<lparr>closed := c\<rparr>)"
  by (simp add: producer_send_def ring_reserve_closed ring_commit_def
      split: prod.splits option.splits)

subsection \<open>Sending on a ring that is not full\<close>

text \<open>
  \<open>ring_is_full\<close> compares the 64-bit difference \<open>tail - head\<close> with the capacity.
  When it is false the send succeeds in every ring state, wrapped indices and a stale
  or wrong \<open>cached_head\<close> included: either the fast path finds space, or the slow path
  re-reads \<open>head\<close>.
\<close>

lemma not_full_bits: "\<not> ring_is_full B r \<Longrightarrow> B < 64"
proof (rule ccontr)
  assume nf: "\<not> ring_is_full B r" and "\<not> B < 64"
  then have "RING_CAPACITY B = 0"
    by (simp add: RING_CAPACITY_def)
  with nf show False
    by (simp add: ring_is_full_def)
qed

lemma producer_send_not_full:
  assumes nf: "\<not> ring_is_full B r"
  shows "producer_send B r v =
     (True, (if RING_CAPACITY B - (tail r - cached_head r) \<ge> 1 then r
             else r\<lparr>cached_head := head r\<rparr>)
            \<lparr>buffer := (buffer r)[unat (tail r AND RING_MASK B) := v], tail := tail r + 1\<rparr>)"
proof -
  from nf have "tail r - head r < RING_CAPACITY B"
    by (simp add: ring_is_full_def ring_len_def)
  then have lt: "unat (tail r - head r) < unat (RING_CAPACITY B)"
    by (simp add: word_less_nat_alt)
  then have "unat (RING_CAPACITY B - (tail r - head r))
      = unat (RING_CAPACITY B) - unat (tail r - head r)"
    by (intro space_unat) simp
  with lt have "0 < unat (RING_CAPACITY B - (tail r - head r))"
    by simp
  then have sp: "\<not> RING_CAPACITY B - (tail r - head r) < 1"
    by (simp add: word_less_nat_alt)
  show ?thesis
    using sp by (simp add: producer_send_def ring_reserve_def Let_def ring_commit_def)
qed

subsection \<open>Indices as images of unbounded counters\<close>

text \<open>
  The 64-bit indices are the images of the numbers of slots ever consumed (\<open>H\<close>) and
  ever committed (\<open>T\<close>); the facts below read the operations in terms of these
  numbers, so that they hold before and after the indices wrap around.
\<close>

lemma word_of_nat_diff_unat:
  assumes "a \<le> b" "b - a < 2 ^ 64"
  shows "unat (of_nat b - of_nat a :: u64) = b - a"
proof -
  have "(of_nat b - of_nat a :: u64) = of_nat (b - a)"
    using assms(1) by simp
  then show ?thesis
    using assms(2) by (simp add: unat_of_nat)
qed

lemma slot_of_nat:
  assumes "B < 64"
  shows "unat ((of_nat n :: u64) AND RING_MASK B) = n mod 2 ^ B"
proof -
  have "(2::nat) ^ B dvd 2 ^ 64"
    using assms by (intro le_imp_power_dvd) simp
  then show ?thesis
    by (simp add: unat_and_mask unat_of_nat mod_mod_cancel)
qed

lemma consume_batch_loop_eq:
  "consume_batch_loop B buf h t pos count ctx =
     (count + (t - pos),
      fold (\<lambda>k. h ((pos + of_nat k) AND RING_MASK B)
                   (buf ! unat ((pos + of_nat k) AND RING_MASK B)))
        [0..<unat (t - pos)] ctx)"
proof (induction B buf h t pos count ctx rule: consume_batch_loop.induct)
  case (1 B buf h t pos count ctx)
  show ?case
  proof (cases "pos = t")
    case True
    then show ?thesis
      by (subst consume_batch_loop.simps) simp
  next
    case False
    then have nz: "t - pos \<noteq> 0"
      by simp
    have "unat ((t - pos) - 1) = unat (t - pos) - 1"
      using nz by (rule unat_minus_one)
    moreover have "t - (pos + 1) = (t - pos) - 1"
      by simp
    ultimately have "unat (t - (pos + 1)) = unat (t - pos) - 1"
      by (simp only:)
    moreover have "0 < unat (t - pos)"
      using nz by (simp add: unat_gt_0)
    ultimately have m: "unat (t - pos) = Suc (unat (t - (pos + 1)))"
      by simp
    have upt: "[0..<Suc n] = 0 # map Suc [0..<n]" for n
      by (simp only: map_Suc_upt upt_conv_Cons [OF zero_less_Suc])
    have shift: "pos + 1 + of_nat k = pos + of_nat (Suc k)" for k
      by simp
    show ?thesis
      apply (subst consume_batch_loop.simps)
      apply (simp only: False if_True not_False_eq_True Let_def "1.IH" [OF False refl] m upt)
      apply (simp only: fold_map list.map fold_simps comp_def shift)
      apply simp
      done
  qed
qed

lemma ring_consume_batch_ghost:
  fixes r :: ring_t
  assumes B: "B < 64"
    and h: "head r = of_nat H" and t: "tail r = of_nat T"
    and le: "H \<le> T" and d: "T - H < 2 ^ 64"
  shows "ring_consume_batch B r handler ctx =
     (of_nat (T - H), r\<lparr>head := tail r\<rparr>,
      fold (\<lambda>i. handler (of_nat (i mod 2 ^ B)) (buffer r ! (i mod 2 ^ B))) [H..<T] ctx)"
proof (cases "T = H")
  case True
  then show ?thesis
    by (simp add: ring_consume_batch_def h t)
next
  case False
  have u: "unat (tail r - head r) = T - H"
    unfolding h t using le d by (rule word_of_nat_diff_unat)
  have nz: "tail r - head r \<noteq> 0"
    using u False le by (auto simp add: unat_eq_0 [symmetric] simp del: unat_eq_0)
  have cnt: "tail r - head r = of_nat (T - H)"
    unfolding h t using le by simp
  have slot: "(head r + of_nat k) AND RING_MASK B = of_nat ((H + k) mod 2 ^ B)" for k
  proof -
    have "unat ((of_nat (H + k) :: u64) AND RING_MASK B) = (H + k) mod 2 ^ B"
      using B by (rule slot_of_nat)
    moreover have "w = of_nat (unat w)" for w :: u64
      by simp
    ultimately have "(of_nat (H + k) :: u64) AND RING_MASK B = of_nat ((H + k) mod 2 ^ B)"
      by metis
    then show ?thesis
      by (simp add: h)
  qed
  have uslot: "unat (of_nat ((H + k) mod 2 ^ B) :: u64) = (H + k) mod 2 ^ B" for k
  proof -
    have "(H + k) mod 2 ^ B < (2::nat) ^ B"
      by simp
    also have "(2::nat) ^ B < 2 ^ 64"
      using B by (intro power_strict_increasing) simp_all
    finally show ?thesis
      by (simp add: unat_of_nat)
  qed
  have u': "unat (of_nat (T - H) :: u64) = T - H"
    using u by (simp only: cnt)
  have range: "[H..<T] = map (\<lambda>k. H + k) [0..<T - H]"
    using le by (simp add: map_add_upt add.commute)
  have loop: "consume_batch_loop B (buffer r) handler (tail r) (head r) 0 ctx =
      (of_nat (T - H),
       fold (\<lambda>i. handler (of_nat (i mod 2 ^ B)) (buffer r ! (i mod 2 ^ B))) [H..<T] ctx)"
    by (simp only: consume_batch_loop_eq u u' slot uslot range fold_map comp_def cnt add_0)
  have ne: "tail r - head r \<noteq> 0"
    by (rule nz)
  show ?thesis
    by (simp only: ring_consume_batch_def Let_def ne if_False loop prod.case)
qed

lemma pow_lt_2p64: "B < 64 \<Longrightarrow> (2::nat) ^ B < 2 ^ 64"
  by (intro power_strict_increasing) simp_all


lemma ring_reserve_ghost:
  fixes r :: ring_t
  assumes B: "B < 64"
    and h: "head r = of_nat H" and t: "tail r = of_nat T" and c: "cached_head r = of_nat C"
    and le: "C \<le> H" "H \<le> T" "T \<le> C + 2 ^ B"
  shows "ring_reserve B r =
     (if T - H < 2 ^ B
      then (Some (of_nat (T mod 2 ^ B)),
            if T - C < 2 ^ B then r else r\<lparr>cached_head := head r\<rparr>)
      else (None, r\<lparr>cached_head := head r\<rparr>))"
proof -
  note p = pow_lt_2p64 [OF B]
  have u1: "unat (head r - cached_head r) = H - C"
    unfolding h c using le p by (intro word_of_nat_diff_unat) simp_all
  have u2: "unat (tail r - cached_head r) = T - C"
    unfolding t c using le p by (intro word_of_nat_diff_unat) simp_all
  have u3: "unat (tail r - head r) = T - H"
    unfolding t h using le p by (intro word_of_nat_diff_unat) simp_all
  have a: "unat (head r - cached_head r) \<le> unat (tail r - cached_head r)"
    using le by (simp add: u1 u2)
  have b: "unat (tail r - cached_head r) \<le> unat (RING_CAPACITY B)"
    using le by (simp add: u2 cap_unat B)
  have "w = of_nat (unat w)" for w :: u64
    by simp
  then have slot: "tail r AND RING_MASK B = of_nat (T mod 2 ^ B)"
    using slot_of_nat [OF B, of T] unfolding t by metis
  show ?thesis
    unfolding ring_reserve_window [OF a b] by (simp add: u2 u3 cap_unat B slot)
qed

subsection \<open>The round trip invariant\<close>










subsection \<open>The invariant of the reserve/commit protocol\<close>

lemma ring_reserve_n_ghost:
  fixes r :: ring_t
  assumes B: "B < 64"
    and h: "head r = of_nat H" and t: "tail r = of_nat T" and c: "cached_head r = of_nat C"
    and le: "C \<le> H" "H \<le> T" "T \<le> C + 2 ^ B"
  shows "\<exists>p out' C'. ring_reserve_n B r n out = (p, out', r\<lparr>cached_head := of_nat C'\<rparr>)
     \<and> C \<le> C' \<and> C' \<le> H
     \<and> (p \<noteq> None \<longrightarrow> (\<forall>x. out' = Some x \<longrightarrow> T + unat x \<le> C' + 2 ^ B))"
proof (cases "n = 0 \<or> n > RING_CAPACITY B")
  case True
  then have "ring_reserve_n B r n out = (None, out, r\<lparr>cached_head := of_nat C\<rparr>)"
    by (simp add: ring_reserve_n_def c [symmetric])
  then show ?thesis
    using le by auto
next
  case False
  note p = pow_lt_2p64 [OF B]
  have n: "0 < unat n" "unat n \<le> unat (RING_CAPACITY B)"
    using False by (simp_all add: unat_gt_0 word_le_nat_alt word_less_nat_alt)
  have u1: "unat (head r - cached_head r) = H - C"
    unfolding h c using le p by (intro word_of_nat_diff_unat) simp_all
  have u2: "unat (tail r - cached_head r) = T - C"
    unfolding t c using le p by (intro word_of_nat_diff_unat) simp_all
  have u3: "unat (tail r - head r) = T - H"
    unfolding t h using le p by (intro word_of_nat_diff_unat) simp_all
  have a: "unat (head r - cached_head r) \<le> unat (tail r - cached_head r)"
    using le by (simp add: u1 u2)
  have b: "unat (tail r - cached_head r) \<le> unat (RING_CAPACITY B)"
    using le by (simp add: u2 cap_unat B)
  let ?c = "if RING_CAPACITY B - (tail r AND RING_MASK B) > n then n
            else RING_CAPACITY B - (tail r AND RING_MASK B)"
  have cn: "unat ?c \<le> unat n"
    by (simp add: word_le_nat_alt word_less_nat_alt)
  note res = ring_reserve_n_window [OF a b n, of out]
  show ?thesis
  proof (cases "unat (RING_CAPACITY B) - unat (tail r - head r) < unat n")
    case True
    then have "ring_reserve_n B r n out = (None, out, r\<lparr>cached_head := of_nat H\<rparr>)"
      by (simp add: res h)
    then show ?thesis
      using le by auto
  next
    case nofail: False
    show ?thesis
    proof (cases "unat (RING_CAPACITY B) - unat (tail r - cached_head r) < unat n")
      case True
      then have "ring_reserve_n B r n out =
          (Some (tail r AND RING_MASK B), map_option (\<lambda>_. ?c) out, r\<lparr>cached_head := of_nat H\<rparr>)"
        using nofail by (simp add: res h)
      moreover have "T + unat ?c \<le> H + 2 ^ B"
        using nofail cn le by (simp add: u3 cap_unat B)
      ultimately show ?thesis
        using le by auto
    next
      case False
      then have "ring_reserve_n B r n out =
          (Some (tail r AND RING_MASK B), map_option (\<lambda>_. ?c) out, r\<lparr>cached_head := of_nat C\<rparr>)"
        using nofail by (simp add: res c [symmetric])
      moreover have "T + unat ?c \<le> C + 2 ^ B"
        using False cn le by (simp add: u2 cap_unat B)
      ultimately show ?thesis
        using le by auto
    qed
  qed
qed

lemma ring_consume_batch_ring:
  "fst (snd (ring_consume_batch B r h ctx)) = r\<lparr>head := tail r\<rparr>"
  by (simp add: ring_consume_batch_def Let_def split: prod.splits)

lemma consume_up_to_loop_count:
  "count \<le> to_consume \<Longrightarrow>
   fst (consume_up_to_loop B buf h to_consume pos count ctx) = to_consume"
proof (induction B buf h to_consume pos count ctx rule: consume_up_to_loop.induct)
  case (1 B buf h to_consume pos count ctx)
  show ?case
  proof (cases "count < to_consume")
    case True
    then have "unat (count + 1) = unat count + 1"
      by (rule unat_succ_less)
    with True have "count + 1 \<le> to_consume"
      by (simp add: word_le_nat_alt word_less_nat_alt)
    with "1.IH" [OF True refl] True show ?thesis
      by (subst consume_up_to_loop.simps) (simp add: Let_def)
  next
    case False
    with "1.prems" have "count = to_consume"
      by simp
    then show ?thesis
      by (subst consume_up_to_loop.simps) simp
  qed
qed

lemma ring_consume_up_to_ring:
  "fst (snd (ring_consume_up_to B r m h ctx)) =
     r\<lparr>head := head r + (if tail r - head r < m then tail r - head r else m)\<rparr>"
proof (cases "m = 0 \<or> tail r - head r = 0")
  case True
  then show ?thesis
    by (auto simp add: ring_consume_up_to_def word_gt_0)
next
  case False
  have "fst (consume_up_to_loop B (buffer r) h k (head r) 0 ctx) = k" for k
    by (rule consume_up_to_loop_count) simp
  then show ?thesis
    using False by (simp add: ring_consume_up_to_def Let_def case_prod_beta)
qed

lemma unat_of_nat_small: "n < 2 ^ 64 \<Longrightarrow> unat (of_nat n :: u64) = n"
  by (simp add: unat_of_nat)

lemma of_nat_plus_word: "(of_nat a :: u64) + w = of_nat (a + unat w)"
  by simp

lemma ring_step_ghost:
  assumes B: "B < 64" and gh: "ring_ghost B H T C s" and st: "ring_step B h s op = Some s'"
  shows "\<exists>H' C'. ring_ghost B H' (T + committed [op]) C' s' \<and> H \<le> H'"
proof -
  obtain r g ctx where s: "s = (r, g, ctx)"
    by (cases s) auto
  from gh have h: "head r = of_nat H" and t: "tail r = of_nat T"
    and c: "cached_head r = of_nat C"
    and le: "C \<le> H" "H \<le> T" and gr: "T + unat g \<le> C + 2 ^ B"
    by (simp_all add: ring_ghost_def s)
  from gr have tc: "T \<le> C + 2 ^ B"
    by simp
  show ?thesis
  proof (cases op)
    case OpReserve
    note res = ring_reserve_ghost [OF B h t c le tc]
    show ?thesis
    proof (cases "T - H < 2 ^ B")
      case False
      then have "s' = (r\<lparr>cached_head := head r\<rparr>, g, ctx)"
        using st by (simp add: s OpReserve res)
      then have "ring_ghost B H (T + committed [op]) H s'"
        using h t le gr by (simp add: ring_ghost_def OpReserve)
      then show ?thesis by blast
    next
      case True
      define C' where "C' = (if T - C < 2 ^ B then C else H)"
      have "s' = ((if T - C < 2 ^ B then r else r\<lparr>cached_head := head r\<rparr>), max g 1, ctx)"
        using st True by (simp add: s OpReserve res)
      moreover have "Suc T \<le> C' + 2 ^ B" "C' \<le> H" "T + unat g \<le> C' + 2 ^ B"
        using True le gr unfolding C'_def by (simp_all split: if_splits) arith+
      ultimately have "ring_ghost B H (T + committed [op]) C' s'"
        using h t c le by (auto simp add: ring_ghost_def OpReserve C'_def max_def split: if_splits)
      then show ?thesis by blast
    qed
  next
    case (OpReserveN n)
    from ring_reserve_n_ghost [OF B h t c le tc, of n "Some 0"]
    obtain p out' C' where
      res: "ring_reserve_n B r n (Some 0) = (p, out', r\<lparr>cached_head := of_nat C'\<rparr>)"
      and cc: "C \<le> C'" "C' \<le> H"
      and ok: "p \<noteq> None \<longrightarrow> (\<forall>x. out' = Some x \<longrightarrow> T + unat x \<le> C' + 2 ^ B)"
      by blast
    show ?thesis
    proof (cases p)
      case None
      then have "s' = (r\<lparr>cached_head := of_nat C'\<rparr>, g, ctx)"
        using st by (simp add: s OpReserveN res)
      then have "ring_ghost B H (T + committed [op]) C' s'"
        using h t le gr cc by (simp add: ring_ghost_def OpReserveN)
      then show ?thesis by blast
    next
      case (Some slot)
      with st obtain x where x: "out' = Some x"
        and s': "s' = (r\<lparr>cached_head := of_nat C'\<rparr>, max g x, ctx)"
        by (cases out') (simp_all add: s OpReserveN res)
      from ok Some x have "T + unat x \<le> C' + 2 ^ B"
        by simp
      moreover have "T + unat g \<le> C' + 2 ^ B"
        using gr cc by simp
      ultimately have "ring_ghost B H (T + committed [op]) C' s'"
        using h t le cc by (simp add: ring_ghost_def OpReserveN s' max_def)
      then show ?thesis by blast
    qed
  next
    case (OpCommit n)
    with st have ng: "n \<le> g" and s': "s' = (ring_commit r n, 0, ctx)"
      by (simp_all add: s split: if_splits)
    have "unat n \<le> unat g"
      using ng by (simp add: word_le_nat_alt)
    then have "ring_ghost B H (T + committed [op]) C s'"
      using h t c le gr
      by (simp add: ring_ghost_def OpCommit s' ring_commit_def)
    then show ?thesis by blast
  next
    case OpConsumeBatch
    with st have "fst s' = r\<lparr>head := tail r\<rparr>" "fst (snd s') = g"
      using ring_consume_batch_ring [of B r h ctx] by (auto simp add: s split: prod.splits)
    then have "ring_ghost B T (T + committed [op]) C s'"
      using h t c le gr by (cases s') (simp add: ring_ghost_def OpConsumeBatch)
    then show ?thesis using le by blast
  next
    case (OpConsumeUpTo m)
    define k where "k = (if tail r - head r < m then tail r - head r else m)"
    have u3: "unat (tail r - head r) = T - H"
      unfolding t h using le tc pow_lt_2p64 [OF B] by (intro word_of_nat_diff_unat) simp_all
    have "unat k \<le> unat (tail r - head r)"
      by (simp add: k_def word_le_nat_alt word_less_nat_alt)
    then have kb: "H + unat k \<le> T"
      using le by (simp add: u3)
    from OpConsumeUpTo st have "fst s' = r\<lparr>head := head r + k\<rparr>" "fst (snd s') = g"
      using ring_consume_up_to_ring [of B r m h ctx]
      by (auto simp add: s k_def split: prod.splits)
    then have "ring_ghost B (H + unat k) (T + committed [op]) C s'"
      using h t c le gr kb by (cases s') (simp add: ring_ghost_def OpConsumeUpTo)
    then show ?thesis by (metis le_add1)
  next
    case OpClose
    with st have "s' = (ring_close r, g, ctx)"
      by (simp add: s)
    then have "ring_ghost B H (T + committed [op]) C s'"
      using h t c le gr by (simp add: ring_ghost_def OpClose ring_close_def)
    then show ?thesis by blast
  qed
qed

lemma committed_Cons: "committed (op # ops) = committed [op] + committed ops"
  by (cases op) simp_all

lemma ring_ghost_literal:
  assumes B: "B < 64" and gh: "ring_ghost B H T C s" and T: "T < 2 ^ 64"
  shows "unat (head (fst s)) = H \<and> unat (tail (fst s)) = T \<and> unat (cached_head (fst s)) = C
     \<and> C \<le> H \<and> H \<le> T \<and> T - H \<le> 2 ^ B"
proof -
  obtain r g ctx where s: "s = (r, g, ctx)"
    by (cases s) auto
  from gh have h: "head r = of_nat H" and t: "tail r = of_nat T"
    and c: "cached_head r = of_nat C"
    and le: "C \<le> H" "H \<le> T" and gr: "T + unat g \<le> C + 2 ^ B"
    by (simp_all add: ring_ghost_def s)
  have "H < 2 ^ 64" "C < 2 ^ 64"
    using le T by simp_all
  then show ?thesis
    using T le gr by (simp add: s h t c unat_of_nat_small)
qed

lemma ring_trace_inv:
  assumes B: "B < 64"
  shows "ring_ghost B H T C s \<Longrightarrow> ring_trace B h s ops = Some ss \<Longrightarrow>
     T + committed ops < 2 ^ 64 \<Longrightarrow>
     (\<forall>s' \<in> set ss.
        unat (head (fst s')) \<le> unat (tail (fst s'))
        \<and> unat (tail (fst s')) - unat (head (fst s')) \<le> 2 ^ B
        \<and> unat (cached_head (fst s')) \<le> unat (head (fst s'))
        \<and> H \<le> unat (head (fst s')) \<and> T \<le> unat (tail (fst s')))
     \<and> sorted (map (\<lambda>s. head (fst s)) ss) \<and> sorted (map (\<lambda>s. tail (fst s)) ss)"
proof (induction ops arbitrary: s H T C ss)
  case Nil
  then have ss: "ss = [s]" and T: "T < 2 ^ 64"
    by simp_all
  from ring_ghost_literal [OF B Nil.prems(1) T] show ?case
    by (simp add: ss)
next
  case (Cons op ops)
  from Cons.prems(2) obtain s1 ss1 where st: "ring_step B h s op = Some s1"
    and tr: "ring_trace B h s1 ops = Some ss1" and ss: "ss = s # ss1"
    by (auto split: option.splits)
  from ring_step_ghost [OF B Cons.prems(1) st]
  obtain H' C' where gh': "ring_ghost B H' (T + committed [op]) C' s1" and HH: "H \<le> H'"
    by blast
  have bound: "T + committed [op] + committed ops < 2 ^ 64"
    using Cons.prems(3) committed_Cons [of op ops] by simp
  then have T: "T < 2 ^ 64"
    by simp
  note lit = ring_ghost_literal [OF B Cons.prems(1) T]
  note IH = Cons.IH [OF gh' tr bound]
  have later: "H \<le> unat (head (fst s')) \<and> T \<le> unat (tail (fst s'))" if "s' \<in> set ss1" for s'
    using IH that HH by fastforce
  have "\<forall>s' \<in> set ss1. head (fst s) \<le> head (fst s') \<and> tail (fst s) \<le> tail (fst s')"
    using later lit by (simp add: word_le_nat_alt)
  then show ?case
    using IH lit later by (simp add: ss)
qed

lemma ring_step_consume_batch:
  "ring_step B h (r, g, ctx) OpConsumeBatch =
     Some (r\<lparr>head := tail r\<rparr>, g, snd (snd (ring_consume_batch B r h ctx)))"
  using ring_consume_batch_ring [of B r h ctx]
  by (cases "ring_consume_batch B r h ctx") simp

lemma ring_step_consume_up_to:
  "ring_step B h (r, g, ctx) (OpConsumeUpTo m) =
     Some (r\<lparr>head := head r + (if tail r - head r < m then tail r - head r else m)\<rparr>, g,
           snd (snd (ring_consume_up_to B r m h ctx)))"
  using ring_consume_up_to_ring [of B r m h ctx]
  by (cases "ring_consume_up_to B r m h ctx") simp

subsection \<open>Rounds that advance the indices by the capacity\<close>

lemma ring_trace_nonempty: "ring_trace B h s ops = Some ss \<Longrightarrow> ss \<noteq> []"
  by (cases ops) (auto split: option.splits)

lemma ring_trace_last: "map_option last (ring_trace B h s ops) = ring_run B h s ops"
proof (induction ops arbitrary: s)
  case Nil
  show ?case by simp
next
  case (Cons op ops)
  show ?case
  proof (cases "ring_step B h s op")
    case None
    then show ?thesis by simp
  next
    case (Some s')
    show ?thesis
    proof (cases "ring_trace B h s' ops")
      case None
      with Cons [of s'] Some show ?thesis by simp
    next
      case (Some ss)
      with ring_trace_nonempty [OF Some] Cons [of s'] \<open>ring_step B h s op = Some s'\<close>
      show ?thesis by simp
    qed
  qed
qed

lemma ring_run_append:
  "ring_run B h s (xs @ ys) =
     (case ring_run B h s xs of None \<Rightarrow> None | Some s' \<Rightarrow> ring_run B h s' ys)"
  by (induction xs arbitrary: s) (simp_all split: option.splits)

lemma mask_add_cap:
  assumes B: "B < 64"
  shows "(x + RING_CAPACITY B) AND RING_MASK B = x AND RING_MASK B"
proof (rule word_unat_eq_iff [THEN iffD2])
  have dvd: "(2::nat) ^ B dvd 2 ^ 64"
    using B by (intro le_imp_power_dvd) simp
  have "unat ((x + RING_CAPACITY B) AND RING_MASK B) = (unat x + 2 ^ B) mod 2 ^ 64 mod 2 ^ B"
    by (simp add: unat_and_mask unat_word_ariths cap_unat B)
  also have "\<dots> = (unat x + 2 ^ B) mod 2 ^ B"
    using dvd by (rule mod_mod_cancel)
  also have "\<dots> = unat (x AND RING_MASK B)"
    by (simp add: unat_and_mask)
  finally show "unat ((x + RING_CAPACITY B) AND RING_MASK B) = unat (x AND RING_MASK B)" .
qed

lemma cap_nonzero: "B < 64 \<Longrightarrow> RING_CAPACITY B \<noteq> 0"
  using cap_unat [of B] by (auto simp add: unat_eq_0 [symmetric] simp del: unat_eq_0)

lemma wrap_reserve_commit:
  assumes B: "B < 64" and e: "tail r = head r" and a: "tail r AND RING_MASK B = 0"
    and c: "cached_head r = tail r \<or> cached_head r = tail r - RING_CAPACITY B"
  shows "ring_run B h (r, g, ctx) [OpReserveN (RING_CAPACITY B), OpCommit (RING_CAPACITY B)] =
     Some (r\<lparr>cached_head := tail r, tail := tail r + RING_CAPACITY B\<rparr>, 0, ctx)"
proof -
  note nz = cap_nonzero [OF B]
  have pos: "0 < RING_CAPACITY B"
    using nz by (simp add: word_gt_0)
  have res: "ring_reserve_n B r (RING_CAPACITY B) (Some 0) =
      (Some 0, Some (RING_CAPACITY B), r\<lparr>cached_head := tail r\<rparr>)"
    using c
  proof
    assume c1: "cached_head r = tail r"
    then have "r\<lparr>cached_head := tail r\<rparr> = r"
      by (metis ring_t.surjective ring_t.update_convs(2) ring_t.select_convs(2))
    then show ?thesis
      using nz by (simp add: ring_reserve_n_def Let_def c1 a)
  next
    assume c2: "cached_head r = tail r - RING_CAPACITY B"
    show ?thesis
      using nz pos by (simp add: ring_reserve_n_def Let_def c2 a e [symmetric])
  qed
  show ?thesis
    by (simp add: res ring_commit_def)
qed

lemma wrap_round_step:
  assumes B: "B < 64" and e: "tail r = head r" and a: "tail r AND RING_MASK B = 0"
    and c: "cached_head r = tail r \<or> cached_head r = tail r - RING_CAPACITY B"
  shows "ring_run B noop_handler (r, g, ()) (wrap_round B) =
     Some (r\<lparr>cached_head := tail r, tail := tail r + RING_CAPACITY B,
             head := tail r + RING_CAPACITY B\<rparr>, 0, ())"
proof -
  have "wrap_round B = [OpReserveN (RING_CAPACITY B), OpCommit (RING_CAPACITY B)] @ [OpConsumeBatch]"
    by (simp add: wrap_round_def)
  then show ?thesis
    using ring_consume_batch_ring
      [of B "r\<lparr>cached_head := tail r, tail := tail r + RING_CAPACITY B\<rparr>" noop_handler "()"]
    by (simp only: ring_run_append wrap_reserve_commit [OF B e a c])
      (auto split: prod.splits)
qed

lemma wrap_rounds:
  assumes B: "B < 64"
  shows "tail r = head r \<Longrightarrow> tail r AND RING_MASK B = 0 \<Longrightarrow>
     cached_head r = tail r \<or> cached_head r = tail r - RING_CAPACITY B \<Longrightarrow>
     \<exists>r' g'. ring_run B noop_handler (r, g, ()) (concat (replicate k (wrap_round B)))
         = Some (r', g', ())
       \<and> tail r' = head r' \<and> tail r' = tail r + of_nat k * RING_CAPACITY B
       \<and> tail r' AND RING_MASK B = 0
       \<and> (cached_head r' = tail r' \<or> cached_head r' = tail r' - RING_CAPACITY B)"
proof (induction k arbitrary: r g)
  case 0
  then show ?case by simp
next
  case (Suc k)
  let ?r1 = "r\<lparr>cached_head := tail r, tail := tail r + RING_CAPACITY B,
             head := tail r + RING_CAPACITY B\<rparr>"
  have step: "ring_run B noop_handler (r, g, ()) (wrap_round B) = Some (?r1, 0, ())"
    using B Suc.prems by (rule wrap_round_step)
  have "tail ?r1 = head ?r1" "tail ?r1 AND RING_MASK B = 0"
    "cached_head ?r1 = tail ?r1 \<or> cached_head ?r1 = tail ?r1 - RING_CAPACITY B"
    using Suc.prems(2) by (simp_all add: mask_add_cap [OF B])
  from Suc.IH [OF this, of 0] obtain r' g' where
    run: "ring_run B noop_handler (?r1, 0, ()) (concat (replicate k (wrap_round B)))
         = Some (r', g', ())"
    and props: "tail r' = head r'" "tail r' = tail ?r1 + of_nat k * RING_CAPACITY B"
      "tail r' AND RING_MASK B = 0"
      "cached_head r' = tail r' \<or> cached_head r' = tail r' - RING_CAPACITY B"
    by blast
  have "ring_run B noop_handler (r, g, ()) (concat (replicate (Suc k) (wrap_round B)))
      = Some (r', g', ())"
    by (simp add: ring_run_append step run)
  moreover have "tail r' = tail r + of_nat (Suc k) * RING_CAPACITY B"
    using props(2) by (simp add: algebra_simps)
  ultimately show ?case
    using props by blast
qed

section \<open>Round-trip delivery\<close>



section \<open>Logical ring invariants\<close>

text \<open>
  C2, as amended. Start from the zeroed ring of \<open>ring_init\<close> and run any sequence of
  ring operations in which each \<open>ring_commit(n)\<close> is paired with a preceding
  successful \<open>ring_reserve\<close> or \<open>ring_reserve_n\<close> whose contiguous count is \<open>\<ge> n\<close>,
  and which commits fewer than \<open>2 ^ 64\<close> slots in total. Then at every step
  \<open>head \<le> tail\<close>, \<open>tail - head \<le> capacity\<close> and \<open>cached_head \<le> head\<close>, and \<open>head\<close> and
  \<open>tail\<close> never decrease from one step to a later one.
\<close>

theorem ring_invariants:
  assumes B: "B < 64"
    and tr: "ring_trace B h (ring_init B, 0, ctx) ops = Some ss"
    and nowrap: "committed ops < 2 ^ 64"
  shows "(\<forall>s \<in> set ss.
        unat (head (fst s)) \<le> unat (tail (fst s))
        \<and> unat (tail (fst s)) - unat (head (fst s)) \<le> unat (RING_CAPACITY B)
        \<and> unat (cached_head (fst s)) \<le> unat (head (fst s)))
     \<and> sorted (map (\<lambda>s. head (fst s)) ss) \<and> sorted (map (\<lambda>s. tail (fst s)) ss)"
proof -
  have "ring_ghost B 0 0 0 (ring_init B, 0 :: u64, ctx)"
    by (simp add: ring_ghost_def ring_init_def)
  from ring_trace_inv [OF B this tr] nowrap show ?thesis
    by (simp add: cap_unat B)
qed

text \<open>
  The theorem on \<open>protocol_ops\<close>: the triples \<open>(head, tail, cached_head)\<close> of the eight
  states of the run, and the two sequences of indices are sorted.
\<close>

theorem ring_invariants_witness:
  "map_option (map (\<lambda>s. (head (fst s), tail (fst s), cached_head (fst s))))
     (ring_trace 3 noop_handler (ring_init 3, 0, ()) protocol_ops)
     = Some [(0, 0, 0), (0, 0, 0), (0, 5, 0), (2, 5, 0), (2, 5, 0), (2, 6, 0), (6, 6, 0),
             (6, 6, 0)]
   \<and> map_option (\<lambda>ss. sorted (map (\<lambda>s. head (fst s)) ss) \<and> sorted (map (\<lambda>s. tail (fst s)) ss))
     (ring_trace 3 noop_handler (ring_init 3, 0, ()) protocol_ops) = Some True"
proof -
  have "\<exists>ss. ring_trace 3 noop_handler (ring_init 3, 0, ()) protocol_ops = Some ss
      \<and> map (\<lambda>s. (head (fst s), tail (fst s), cached_head (fst s))) ss
        = [(0, 0, 0), (0, 0, 0), (0, 5, 0), (2, 5, 0), (2, 5, 0), (2, 6, 0), (6, 6, 0),
           (6, 6, 0)]"
    by (simp add: protocol_ops_def ring_init_def ring_reserve_def ring_reserve_n_def
        ring_commit_def ring_close_def ring_step_consume_batch ring_step_consume_up_to
        RING_CAPACITY_def RING_MASK_def Let_def del: ring_step.simps(4,5))
  then obtain ss where both:
    "ring_trace 3 noop_handler (ring_init 3, 0, ()) protocol_ops = Some ss
      \<and> map (\<lambda>s. (head (fst s), tail (fst s), cached_head (fst s))) ss
        = [(0, 0, 0), (0, 0, 0), (0, 5, 0), (2, 5, 0), (2, 5, 0), (2, 6, 0), (6, 6, 0),
           (6, 6, 0)]" ..
  note tr = both [THEN conjunct1] and vals = both [THEN conjunct2]
  have B: "(3::nat) < 64"
    by simp
  have c: "committed protocol_ops < 2 ^ 64"
    by (simp add: protocol_ops_def)
  note inv = ring_invariants [OF B tr c]
  from inv have s1: "sorted (map (\<lambda>s. head (fst s)) ss)"
    by (rule conjunct2 [THEN conjunct1])
  from inv have s2: "sorted (map (\<lambda>s. tail (fst s)) ss)"
    by (rule conjunct2 [THEN conjunct2])
  show ?thesis
    by (simp only: tr option.map vals s1 s2 simp_thms)
qed

text \<open>
  C2 as stated, for every sequence, fails once \<open>2 ^ 64\<close> slots have been committed:
  the indices are 64-bit counters and \<open>tail\<close> wraps around to 0 before \<open>head\<close> does.
  With the default \<open>RING_BITS = 16\<close>, \<open>wrap_ops 16\<close> runs \<open>2 ^ 48 - 1\<close> rounds of
  65536 slots and then reserves and commits 65536 slots more; every commit is paired
  with its reserve, and the run ends with \<open>head = 2 ^ 64 - 65536\<close> and \<open>tail = 0\<close>, so
  that \<open>head \<le> tail\<close> is false and \<open>tail\<close> has decreased.
\<close>

theorem ring_invariants_wrap_counterexample:
  "map_option (\<lambda>ss. (head (fst (last ss)), tail (fst (last ss))))
     (ring_trace 16 noop_handler (ring_init 16, 0, ()) (wrap_ops 16))
     = Some (18446744073709486080, 0)
   \<and> map_option (\<lambda>ss. head (fst (last ss)) \<le> tail (fst (last ss)))
     (ring_trace 16 noop_handler (ring_init 16, 0, ()) (wrap_ops 16))
     = Some False"
proof -
  have B: "(16::nat) < 64"
    by simp
  have init: "tail (ring_init 16) = head (ring_init 16)"
    "tail (ring_init 16) AND RING_MASK 16 = 0"
    "cached_head (ring_init 16) = tail (ring_init 16)
     \<or> cached_head (ring_init 16) = tail (ring_init 16) - RING_CAPACITY 16"
    by (simp_all add: ring_init_def)
  from wrap_rounds [OF B init, of 0 "2 ^ (64 - 16) - 1"] obtain r' g' where
    run: "ring_run 16 noop_handler (ring_init 16, 0, ())
        (concat (replicate (2 ^ (64 - 16) - 1) (wrap_round 16))) = Some (r', g', ())"
    and e: "tail r' = head r'"
    and t: "tail r' = tail (ring_init 16) + of_nat (2 ^ (64 - 16) - 1) * RING_CAPACITY 16"
    and a: "tail r' AND RING_MASK 16 = 0"
    and c: "cached_head r' = tail r' \<or> cached_head r' = tail r' - RING_CAPACITY 16"
    by blast
  have tv: "tail r' = 18446744073709486080"
    unfolding t by (simp add: ring_init_def RING_CAPACITY_def)
  have fin: "ring_run 16 noop_handler (ring_init 16, 0, ()) (wrap_ops 16)
      = Some (r'\<lparr>cached_head := tail r', tail := tail r' + RING_CAPACITY 16\<rparr>, 0, ())"
    by (simp only: wrap_ops_def ring_run_append run option.case
        wrap_reserve_commit [OF B e a c])
  have "map_option (\<lambda>s. (head (fst s), tail (fst s)))
      (ring_run 16 noop_handler (ring_init 16, 0, ()) (wrap_ops 16))
      = Some (18446744073709486080, 0)"
    unfolding fin using tv e by (simp add: RING_CAPACITY_def)
  then have vals: "map_option (\<lambda>ss. (head (fst (last ss)), tail (fst (last ss))))
     (ring_trace 16 noop_handler (ring_init 16, 0, ()) (wrap_ops 16))
     = Some (18446744073709486080, 0)"
    by (simp add: ring_trace_last [symmetric] option.map_comp comp_def)
  then show ?thesis
    by (cases "ring_trace 16 noop_handler (ring_init 16, 0, ()) (wrap_ops 16)") simp_all
qed

section \<open>Reserving \<open>n\<close> slots\<close>

text \<open>
  C3, as amended. Let \<open>cached_head \<le> head \<le> tail \<le> head + capacity\<close>, let also
  \<open>tail - cached_head \<le> capacity\<close> (the hypothesis the claim lacks), and let
  \<open>1 \<le> n \<le> capacity\<close>. Then \<open>ring_reserve_n(r, n, out)\<close> returns \<open>NULL\<close> if and only
  if \<open>capacity - (tail - head) < n\<close>; on success it returns the pointer to the slot
  \<open>tail mod capacity\<close> and stores \<open>min(n, capacity - (tail mod capacity))\<close> in \<open>*out\<close>
  (when \<open>out\<close> is not \<open>NULL\<close>); on failure \<open>*out\<close> keeps its value; \<open>tail\<close>, \<open>head\<close> and
  the buffer are never modified.
\<close>

theorem ring_reserve_n_spec:
  fixes r :: ring_t and n :: u64
  assumes B: "B < 64"
    and ch: "unat (cached_head r) \<le> unat (head r)"
    and ht: "unat (head r) \<le> unat (tail r)"
    and th: "unat (tail r) \<le> unat (head r) + unat (RING_CAPACITY B)"
    and tc: "unat (tail r) - unat (cached_head r) \<le> unat (RING_CAPACITY B)"
    and n: "1 \<le> unat n" "unat n \<le> unat (RING_CAPACITY B)"
  shows "map_option unat (fst (ring_reserve_n B r n out)) =
       (if unat (RING_CAPACITY B) - (unat (tail r) - unat (head r)) < unat n then None
        else Some (unat (tail r) mod unat (RING_CAPACITY B)))
     \<and> map_option unat (fst (snd (ring_reserve_n B r n out))) =
       (if unat (RING_CAPACITY B) - (unat (tail r) - unat (head r)) < unat n
        then map_option unat out
        else map_option
          (\<lambda>_. min (unat n) (unat (RING_CAPACITY B) - unat (tail r) mod unat (RING_CAPACITY B)))
          out)
     \<and> tail (snd (snd (ring_reserve_n B r n out))) = tail r
     \<and> head (snd (snd (ring_reserve_n B r n out))) = head r
     \<and> buffer (snd (snd (ring_reserve_n B r n out))) = buffer r"
proof -
  note w = window_of_plain [OF ch ht]
  have a: "unat (head r - cached_head r) \<le> unat (tail r - cached_head r)"
    using ch ht by (simp add: w)
  have b: "unat (tail r - cached_head r) \<le> unat (RING_CAPACITY B)"
    using tc by (simp add: w)
  have c: "unat (RING_CAPACITY B - (tail r AND RING_MASK B))
      = unat (RING_CAPACITY B) - unat (tail r) mod unat (RING_CAPACITY B)"
    using B by (simp add: contiguous_unat cap_unat)
  have n': "0 < unat n" using n by simp
  show ?thesis
    unfolding ring_reserve_n_window [OF a b n' n(2)]
    by (simp add: w unat_and_mask cap_unat B c word_less_nat_alt min_def option.map_comp comp_def)
qed

text \<open>
  The theorem at capacity 8, \<open>head = tail = 6\<close>, \<open>n = 5\<close>: slot 6 and 2 contiguous slots.
\<close>

theorem ring_reserve_n_spec_witness:
  "map_option unat (fst (ring_reserve_n 3 ((ring_init 3)\<lparr>tail := 6, head := 6\<rparr>) 5 (Some 0)))
     = Some 6
   \<and> map_option unat (fst (snd (ring_reserve_n 3 ((ring_init 3)\<lparr>tail := 6, head := 6\<rparr>) 5 (Some 0))))
     = Some 2"
  using ring_reserve_n_spec [of 3 "(ring_init 3)\<lparr>tail := 6, head := 6\<rparr>" 5 "Some 0"]
  by (simp add: ring_init_def RING_CAPACITY_def)

text \<open>
  C3 as stated fails on \<open>full_ring_stale_cache\<close>: the state satisfies
  \<open>cached_head \<le> head \<le> tail \<le> head + capacity\<close> and is full, so that
  \<open>capacity - (tail - head) = 0 < 1\<close>, yet \<open>ring_reserve_n(r, 1, out)\<close> returns the
  pointer to slot 0. The fast path computes \<open>8 - (16 - 0)\<close>, which wraps around to a
  large unsigned value, and never reads \<open>head\<close>.
\<close>

theorem ring_reserve_n_stale_cache_counterexample:
  "unat (cached_head full_ring_stale_cache) \<le> unat (head full_ring_stale_cache)
   \<and> unat (head full_ring_stale_cache) \<le> unat (tail full_ring_stale_cache)
   \<and> unat (tail full_ring_stale_cache)
       \<le> unat (head full_ring_stale_cache) + unat (RING_CAPACITY 3)
   \<and> 1 \<le> unat (1 :: u64) \<and> unat (1 :: u64) \<le> unat (RING_CAPACITY 3)
   \<and> unat (RING_CAPACITY 3)
       - (unat (tail full_ring_stale_cache) - unat (head full_ring_stale_cache)) < unat (1 :: u64)
   \<and> fst (ring_reserve_n 3 full_ring_stale_cache 1 (Some 0)) = Some 0"
  by (simp add: full_ring_stale_cache_def ring_init_def RING_CAPACITY_def RING_MASK_def
      ring_reserve_n_def Let_def)

section \<open>Reserving one slot\<close>

text \<open>
  C4. Let \<open>cached_head \<le> head \<le> tail \<le> head + capacity\<close> and
  \<open>tail - cached_head \<le> capacity\<close>. Then \<open>ring_reserve(r)\<close> returns the pointer to the
  slot \<open>tail mod capacity\<close> if and only if \<open>tail - head < capacity\<close>, and \<open>NULL\<close>
  otherwise; \<open>tail\<close> is not advanced. When \<open>tail - cached_head < capacity\<close> the fast
  path succeeds and the ring is left as it is (\<open>head\<close> is not read again); this success
  is safe, \<open>tail - head < capacity\<close> holds then as well, because
  \<open>cached_head \<le> head\<close>. Otherwise \<open>cached_head\<close> is refreshed from \<open>head\<close>.
\<close>

theorem ring_reserve_spec:
  fixes r :: ring_t
  assumes B: "B < 64"
    and ch: "unat (cached_head r) \<le> unat (head r)"
    and ht: "unat (head r) \<le> unat (tail r)"
    and th: "unat (tail r) \<le> unat (head r) + unat (RING_CAPACITY B)"
    and tc: "unat (tail r) - unat (cached_head r) \<le> unat (RING_CAPACITY B)"
  shows "map_option unat (fst (ring_reserve B r)) =
       (if unat (tail r) - unat (head r) < unat (RING_CAPACITY B)
        then Some (unat (tail r) mod unat (RING_CAPACITY B)) else None)
     \<and> snd (ring_reserve B r) =
       (if unat (tail r) - unat (cached_head r) < unat (RING_CAPACITY B) then r
        else r\<lparr>cached_head := head r\<rparr>)
     \<and> tail (snd (ring_reserve B r)) = tail r
     \<and> unat (cached_head (snd (ring_reserve B r))) \<le> unat (head (snd (ring_reserve B r)))"
proof -
  note w = window_of_plain [OF ch ht]
  have a: "unat (head r - cached_head r) \<le> unat (tail r - cached_head r)"
    using ch ht by (simp add: w)
  have b: "unat (tail r - cached_head r) \<le> unat (RING_CAPACITY B)"
    using tc by (simp add: w)
  show ?thesis
    unfolding ring_reserve_window [OF a b]
    using ch ht tc by (auto simp add: w unat_and_mask cap_unat B)
qed

text \<open>
  The theorem at capacity 8: with \<open>head = 2\<close>, \<open>tail = 9\<close> and a stale \<open>cached_head = 1\<close>
  the slow path finds slot 1; with \<open>head = 2\<close>, \<open>tail = 10\<close> the ring is full.
\<close>

theorem ring_reserve_spec_witness:
  "map_option unat
     (fst (ring_reserve 3 ((ring_init 3)\<lparr>tail := 9, cached_head := 1, head := 2\<rparr>))) = Some 1
   \<and> map_option unat
     (fst (ring_reserve 3 ((ring_init 3)\<lparr>tail := 10, cached_head := 2, head := 2\<rparr>))) = None"
  using ring_reserve_spec [of 3 "(ring_init 3)\<lparr>tail := 9, cached_head := 1, head := 2\<rparr>"]
    ring_reserve_spec [of 3 "(ring_init 3)\<lparr>tail := 10, cached_head := 2, head := 2\<rparr>"]
  by (simp add: ring_init_def RING_CAPACITY_def)

section \<open>Batch consumption\<close>

text \<open>
  C5. For every ring with \<open>head \<le> tail\<close> (the bound \<open>tail \<le> head + capacity\<close> of the
  claim is not needed), \<open>ring_consume_batch(r, handler, ctx)\<close> calls
  \<open>handler(&buffer[i mod capacity], ctx)\<close> for each \<open>i\<close> in \<open>[head, tail)\<close> in
  increasing order of \<open>i\<close> (the context after the call is the fold of the handler over
  these indices), then sets \<open>head := tail\<close>, and returns \<open>tail - head\<close> for the \<open>head\<close>
  it started from. On an empty ring (\<open>head = tail\<close>) it returns 0, calls no handler
  (the context is unchanged) and leaves the ring, hence \<open>head\<close>, as it is.
\<close>

theorem ring_consume_batch_spec:
  fixes r :: ring_t
  assumes B: "B < 64" and le: "unat (head r) \<le> unat (tail r)"
  shows "ring_consume_batch B r handler ctx =
       (tail r - head r, r\<lparr>head := tail r\<rparr>,
        fold (\<lambda>i. handler (of_nat (i mod unat (RING_CAPACITY B)))
                     (buffer r ! (i mod unat (RING_CAPACITY B))))
          [unat (head r)..<unat (tail r)] ctx)
     \<and> unat (fst (ring_consume_batch B r handler ctx)) = unat (tail r) - unat (head r)
     \<and> (head r = tail r \<longrightarrow> ring_consume_batch B r handler ctx = (0, r, ctx))"
proof -
  have "unat (tail r) < 2 ^ LENGTH(64)"
    by (rule unsigned_less)
  then have d: "unat (tail r) - unat (head r) < 2 ^ 64"
    by simp
  have cnt: "tail r - head r = of_nat (unat (tail r) - unat (head r))"
    using le by (simp add: of_nat_diff)
  have u: "unat (tail r - head r) = unat (tail r) - unat (head r)"
    using le by (simp add: unat_sub word_le_nat_alt)
  have g: "ring_consume_batch B r handler ctx =
       (tail r - head r, r\<lparr>head := tail r\<rparr>,
        fold (\<lambda>i. handler (of_nat (i mod unat (RING_CAPACITY B)))
                     (buffer r ! (i mod unat (RING_CAPACITY B))))
          [unat (head r)..<unat (tail r)] ctx)"
    using ring_consume_batch_ghost [OF B _ _ le d, of r handler ctx]
    by (simp add: cap_unat B cnt)
  show ?thesis
    unfolding g by (simp add: u)
qed

text \<open>
  The theorem on \<open>wrapped_ring\<close>, with the recording handler: the four items are seen
  in the order of the slots 6, 7, 0, 1; and on a fresh, empty ring.
\<close>

theorem ring_consume_batch_spec_witness:
  "ring_consume_batch 3 wrapped_ring record_handler [] =
     (4, wrapped_ring\<lparr>head := 10\<rparr>, [16, 17, 10, 11])
   \<and> ring_consume_batch 3 (ring_init 3) record_handler [] = (0, ring_init 3, [])"
  using ring_consume_batch_spec [of 3 wrapped_ring record_handler "[]"]
    ring_consume_batch_spec [of 3 "ring_init 3" record_handler "[]"]
  by (simp add: wrapped_ring_def ring_init_def RING_CAPACITY_def record_handler_def)

section \<open>The wrap boundary scenario\<close>

text \<open>
  C6, as amended. With capacity 8 and \<open>head = tail = 6\<close>, \<open>ring_reserve_n(r, 5, &c)\<close>
  returns the pointer to slot 6 with \<open>c = 2\<close>; after \<open>ring_commit(r, 2)\<close> a second
  \<open>ring_reserve_n(r, 5, &c)\<close> returns the pointer to slot 0 with \<open>c = 5\<close>: the second
  call asks for 5 slots again, and 5 contiguous slots are free from slot 0 on. This
  holds whatever \<open>cached_head\<close> is.
\<close>

theorem wrap_under_reserve_n_result:
  assumes "head r = 6" "tail r = 6"
  shows "wrap_under_reserve_n r = ((Some 6, Some 2), (Some 0, Some 5))"
  using assms
  by (auto simp add: wrap_under_reserve_n_def ring_reserve_n_def ring_commit_def Let_def
      RING_CAPACITY_def RING_MASK_def split: if_splits)

text \<open>The theorem on the ring of capacity 8 with \<open>head = tail = 6\<close> and zeroes elsewhere.\<close>

theorem wrap_under_reserve_n_result_witness:
  "wrap_under_reserve_n ((ring_init 3)\<lparr>tail := 6, head := 6\<rparr>)
     = ((Some 6, Some 2), (Some 0, Some 5))"
  using wrap_under_reserve_n_result [of "(ring_init 3)\<lparr>tail := 6, head := 6\<rparr>"]
  by simp

text \<open>
  C6 as stated, with \<open>c = 3\<close> after the second reserve, fails on that ring.
\<close>

theorem wrap_under_reserve_n_counterexample:
  "wrap_under_reserve_n ((ring_init 3)\<lparr>tail := 6, head := 6\<rparr>)
     \<noteq> ((Some 6, Some 2), (Some 0, Some 3))"
  by (simp add: wrap_under_reserve_n_def ring_reserve_n_def ring_commit_def Let_def
      RING_CAPACITY_def RING_MASK_def ring_init_def)

section \<open>Registration\<close>

text \<open>
  C7, as amended. \<open>channel_register\<close> first reads \<open>closed\<close>: on a closed channel it
  returns the closed result (-1) and touches nothing, whatever \<open>producer_count\<close> is.
  Otherwise it fetch-adds \<open>producer_count\<close>; if the value before the addition is
  \<open>\<ge> MAX_PRODUCERS\<close> it decrements the counter back and returns the
  too-many-producers result (-2); otherwise it sets \<open>active\<close> on the ring of index
  \<open>id\<close> and returns 0 with a handle bound to that ring and that id. Every failing
  call leaves \<open>producer_count\<close> (and the whole channel) as it was, and a counter that
  is \<open>\<le> MAX_PRODUCERS\<close> stays so.
\<close>

theorem channel_register_spec:
  "channel_register MP ch out =
     (if closed_ch ch then (- 1, out, ch)
      else if MP \<le> producer_count ch then (- 2, out, ch)
      else (0, \<lparr>ring = unat (producer_count ch), id_p = producer_count ch\<rparr>,
            ch\<lparr>producer_count := producer_count ch + 1,
               rings := (rings ch)[unat (producer_count ch) :=
                 (rings ch ! unat (producer_count ch))\<lparr>active := True\<rparr>]\<rparr>))
   \<and> (fst (channel_register MP ch out) \<noteq> 0 \<longrightarrow>
        producer_count (snd (snd (channel_register MP ch out))) = producer_count ch)
   \<and> (producer_count ch \<le> MP \<longrightarrow>
        producer_count (snd (snd (channel_register MP ch out))) \<le> MP)"
proof -
  have inc: "producer_count ch + 1 \<le> MP" if "\<not> MP \<le> producer_count ch"
  proof -
    from that have lt: "producer_count ch < MP" by simp
    then have "unat (producer_count ch + 1) = unat (producer_count ch) + 1"
      by (rule unat_succ_less)
    with lt show ?thesis
      by (simp add: word_le_nat_alt word_less_nat_alt)
  qed
  show ?thesis
    using inc by (simp add: channel_register_def Let_def)
qed

text \<open>
  The theorem on a fresh channel for 4 producers (success, id 0), and on one whose
  four rings are handed out (too many producers, counter still 4).
\<close>

theorem channel_register_spec_witness:
  "fst (channel_register 4 (channel_init 4 3) \<lparr>ring = 0, id_p = 0\<rparr>) = 0
   \<and> producer_count (snd (snd (channel_register 4 (channel_init 4 3) \<lparr>ring = 0, id_p = 0\<rparr>)))
       = 1
   \<and> fst (channel_register 4 ((channel_init 4 3)\<lparr>producer_count := 4\<rparr>) \<lparr>ring = 0, id_p = 0\<rparr>)
       = - 2
   \<and> producer_count
        (snd (snd (channel_register 4 ((channel_init 4 3)\<lparr>producer_count := 4\<rparr>)
           \<lparr>ring = 0, id_p = 0\<rparr>))) = 4"
  using channel_register_spec [of 4 "channel_init 4 3" "\<lparr>ring = 0, id_p = 0\<rparr>"]
    channel_register_spec [of 4 "(channel_init 4 3)\<lparr>producer_count := 4\<rparr>" "\<lparr>ring = 0, id_p = 0\<rparr>"]
  by (simp add: channel_init_def)

text \<open>
  C7 as stated fails on \<open>closed_full_channel\<close>, which is closed and at the ceiling:
  the result is the closed one (-1), not too-many-producers (-2).
\<close>

theorem channel_register_closed_full_counterexample:
  "closed_ch closed_full_channel
   \<and> producer_count closed_full_channel \<ge> 4
   \<and> fst (channel_register 4 closed_full_channel \<lparr>ring = 0, id_p = 0\<rparr>) = - 1
   \<and> fst (channel_register 4 closed_full_channel \<lparr>ring = 0, id_p = 0\<rparr>) \<noteq> - 2"
  by (simp add: closed_full_channel_def channel_init_def channel_register_def)

section \<open>Closing the channel\<close>

text \<open>
  C8, as amended. After \<open>channel_close(ch)\<close>, \<open>channel_is_closed(ch)\<close> returns true,
  \<open>ring_is_closed\<close> returns true for every registered ring (every index
  \<open>< producer_count\<close>), and the rings of index \<open>\<ge> producer_count\<close> are untouched, so
  they stay not closed. The close does not stop a producer: \<open>ring_reserve\<close> and
  \<open>producer_send\<close> on a registered ring return what they return without the close
  (they succeed whenever the ring is not full), and leave the ring they would have
  left, with \<open>closed\<close> set.
\<close>

theorem channel_close_cascade:
  "channel_is_closed (channel_close ch)
   \<and> producer_count (channel_close ch) = producer_count ch
   \<and> length (rings (channel_close ch)) = length (rings ch)
   \<and> (\<forall>i < length (rings ch).
        rings (channel_close ch) ! i =
          (if i < unat (producer_count ch) then ring_close (rings ch ! i) else rings ch ! i))
   \<and> (\<forall>i < length (rings ch). i < unat (producer_count ch) \<longrightarrow>
        ring_is_closed (rings (channel_close ch) ! i)
        \<and> ring_reserve B (rings (channel_close ch) ! i)
            = (fst (ring_reserve B (rings ch ! i)), ring_close (snd (ring_reserve B (rings ch ! i))))
        \<and> producer_send B (rings (channel_close ch) ! i) v
            = (fst (producer_send B (rings ch ! i) v),
               ring_close (snd (producer_send B (rings ch ! i) v))))"
proof -
  have nth: "rings (channel_close ch) ! i =
      (if i < unat (producer_count ch) then ring_close (rings ch ! i) else rings ch ! i)"
    if "i < length (rings ch)" for i
    using that channel_close_loop_nth [of i "ch\<lparr>closed_ch := True\<rparr>" "producer_count ch" 0]
    by (simp add: channel_close_def Let_def)
  show ?thesis
    using channel_close_loop_fields [of "ch\<lparr>closed_ch := True\<rparr>" "producer_count ch" 0]
    by (simp add: nth channel_is_closed_def)
      (simp add: channel_close_def Let_def ring_close_def ring_is_closed_def
        ring_reserve_closed producer_send_closed)
qed

text \<open>
  The theorem on \<open>one_producer_channel\<close>: ring 0 is closed, ring 1 is not, and a send
  on ring 0 succeeds after the close as it does before.
\<close>

theorem channel_close_cascade_witness:
  "channel_is_closed (channel_close one_producer_channel)
   \<and> ring_is_closed (rings (channel_close one_producer_channel) ! 0)
   \<and> \<not> ring_is_closed (rings (channel_close one_producer_channel) ! 1)
   \<and> producer_send 3 (rings (channel_close one_producer_channel) ! 0) 42
      = (True, ring_close (snd (producer_send 3 (rings one_producer_channel ! 0) 42)))"
proof -
  have len: "length (rings one_producer_channel) = 4"
    and cnt: "unat (producer_count one_producer_channel) = 1"
    and r1: "\<not> closed (rings one_producer_channel ! 1)"
    and snd0: "fst (producer_send 3 (rings one_producer_channel ! 0) 42) = True"
    by (simp_all add: one_producer_channel_def channel_register_def channel_init_def Let_def
        ring_init_def producer_send_def ring_reserve_def RING_CAPACITY_def RING_MASK_def)
  show ?thesis
    using channel_close_cascade [of one_producer_channel 3 42] len cnt r1 snd0
    by (simp add: ring_is_closed_def ring_close_def producer_send_closed)
qed

text \<open>
  C8 as stated, "producers subsequently attempting to proceed on their ring observe
  failure", fails on \<open>one_producer_closed\<close>: on the closed ring 0, \<open>ring_reserve\<close>
  returns the pointer to slot 0 and \<open>producer_send\<close> returns true.
\<close>

theorem channel_close_producer_counterexample:
  "producer_count one_producer_closed = 1
   \<and> channel_is_closed one_producer_closed
   \<and> ring_is_closed (rings one_producer_closed ! 0)
   \<and> fst (ring_reserve 3 (rings one_producer_closed ! 0)) = Some 0
   \<and> fst (producer_send 3 (rings one_producer_closed ! 0) 42) = True"
  by (simp add: one_producer_closed_def one_producer_channel_def channel_close_def
      channel_register_def channel_init_def channel_close_loop.simps Let_def
      channel_is_closed_def ring_is_closed_def ring_close_def ring_reserve_def
      producer_send_def ring_init_def RING_CAPACITY_def RING_MASK_def)

section \<open>The commit\<close>

text \<open>
  C9. \<open>ring_commit r n\<close> stores \<open>tail + n\<close> (modulo \<open>2 ^ 64\<close>, the addition of
  64-bit words) and changes no other field, for every ring and every \<open>n\<close>: nothing
  is checked. An unpaired commit can thus push \<open>tail - head\<close> beyond the capacity:
  on a fresh ring of capacity 8, \<open>ring_commit\<close> of 9 leaves \<open>tail - head = 9\<close>.
\<close>

theorem ring_commit_frame:
  "ring_commit r n = r\<lparr>tail := tail r + n\<rparr>
   \<and> unat (tail (ring_commit r n)) = (unat (tail r) + unat n) mod 2 ^ 64
   \<and> head (ring_commit r n) = head r
   \<and> cached_head (ring_commit r n) = cached_head r
   \<and> cached_tail (ring_commit r n) = cached_tail r
   \<and> closed (ring_commit r n) = closed r
   \<and> active (ring_commit r n) = active r
   \<and> buffer (ring_commit r n) = buffer r
   \<and> unat (tail (ring_commit (ring_init 3) 9) - head (ring_commit (ring_init 3) 9))
       > unat (RING_CAPACITY 3)"
  by (simp add: ring_commit_def ring_init_def RING_CAPACITY_def unat_word_ariths)

section \<open>The closed flag and the producer\<close>

text \<open>
  C10. For two rings that differ only in \<open>closed\<close>, \<open>ring_reserve\<close>,
  \<open>ring_reserve_n\<close>, \<open>ring_commit\<close> and \<open>producer_send\<close> return the same result and
  update the other fields in the same way. In particular \<open>producer_send\<close> on a closed
  ring that is not full (\<open>ring_is_full\<close> is false), in whatever state the ring is
  otherwise, succeeds and publishes the value: it returns true, the value is stored in
  slot \<open>tail mod capacity\<close>, \<open>tail\<close> is advanced by one, \<open>head\<close> is untouched and the
  ring stays closed.
\<close>

theorem closed_flag_noninterference:
  "ring_reserve B (r\<lparr>closed := c\<rparr>)
     = (fst (ring_reserve B r), (snd (ring_reserve B r))\<lparr>closed := c\<rparr>)
   \<and> ring_reserve_n B (r\<lparr>closed := c\<rparr>) n out
     = (fst (ring_reserve_n B r n out), fst (snd (ring_reserve_n B r n out)),
        (snd (snd (ring_reserve_n B r n out)))\<lparr>closed := c\<rparr>)
   \<and> ring_commit (r\<lparr>closed := c\<rparr>) n = (ring_commit r n)\<lparr>closed := c\<rparr>
   \<and> producer_send B (r\<lparr>closed := c\<rparr>) v
     = (fst (producer_send B r v), (snd (producer_send B r v))\<lparr>closed := c\<rparr>)
   \<and> (closed r \<and> \<not> ring_is_full B r
      \<longrightarrow> fst (producer_send B r v) = True
        \<and> tail (snd (producer_send B r v)) = tail r + 1
        \<and> head (snd (producer_send B r v)) = head r
        \<and> buffer (snd (producer_send B r v))
            = (buffer r)[unat (tail r) mod unat (RING_CAPACITY B) := v]
        \<and> closed (snd (producer_send B r v)))"
proof -
  have send: "fst (producer_send B r v) = True
        \<and> tail (snd (producer_send B r v)) = tail r + 1
        \<and> head (snd (producer_send B r v)) = head r
        \<and> buffer (snd (producer_send B r v))
            = (buffer r)[unat (tail r) mod unat (RING_CAPACITY B) := v]
        \<and> closed (snd (producer_send B r v))"
    if cl: "closed r" and nf: "\<not> ring_is_full B r"
  proof -
    have B: "B < 64"
      using nf by (rule not_full_bits)
    show ?thesis
      unfolding producer_send_not_full [OF nf]
      using cl by (simp add: unat_and_mask cap_unat B)
  qed
  show ?thesis
    using send
    by (simp add: ring_reserve_closed ring_reserve_n_closed producer_send_closed
        ring_commit_def)
qed

text \<open>
  The theorem on a closed, empty ring of capacity 8, where the send stores 42 in
  slot 0, and on \<open>wrapped_closed_ring\<close>, where \<open>head \<le> tail\<close> is false as a
  comparison of the two fields and the send stores 42 in slot 1.
\<close>

theorem closed_flag_noninterference_witness:
  "fst (producer_send 3 ((ring_init 3)\<lparr>closed := True\<rparr>) 42) = True
   \<and> tail (snd (producer_send 3 ((ring_init 3)\<lparr>closed := True\<rparr>) 42)) = 1
   \<and> buffer (snd (producer_send 3 ((ring_init 3)\<lparr>closed := True\<rparr>) 42))
       = (buffer (ring_init 3))[0 := 42]
   \<and> closed (snd (producer_send 3 ((ring_init 3)\<lparr>closed := True\<rparr>) 42))
   \<and> \<not> unat (head wrapped_closed_ring) \<le> unat (tail wrapped_closed_ring)
   \<and> fst (producer_send 3 wrapped_closed_ring 42) = True
   \<and> tail (snd (producer_send 3 wrapped_closed_ring 42)) = 2
   \<and> buffer (snd (producer_send 3 wrapped_closed_ring 42))
       = (buffer (ring_init 3))[1 := 42]
   \<and> closed (snd (producer_send 3 wrapped_closed_ring 42))"
  using closed_flag_noninterference
    [where B = 3 and r = "(ring_init 3)\<lparr>closed := True\<rparr>" and c = True and v = 42]
    closed_flag_noninterference
    [where B = 3 and r = wrapped_closed_ring and c = True and v = 42]
  by (simp add: wrapped_closed_ring_def ring_init_def RING_CAPACITY_def ring_is_full_def
      ring_len_def)

end
